theory Spec2Isabelle
  imports Main "HOL-Library.Word"
begin

unbundle bit_operations_syntax

section \<open>Data model\<close>

text \<open>
  The bit stream of \<^verbatim>\<open>BitStream.c\<close>. The header \<^verbatim>\<open>BitStream.h\<close> is not part of the
  sources at hand, so the structure and the macros are read off their uses in the code:
  \<^verbatim>\<open>bs->array\<close> is a pointer to bytes (\<open>None\<close> is the \<^verbatim>\<open>NULL\<close> pointer, \<open>Some xs\<close> an
  allocated block of \<open>length xs\<close> bytes) and \<^verbatim>\<open>bs->nbits\<close> a 16-bit unsigned bit count
  (it is assigned from and compared with \<^verbatim>\<open>uint16_t\<close> values only).
\<close>

type_synonym u8 = "8 word"
type_synonym u16 = "16 word"

record BitStream =
  array :: "u8 list option"
  nbits :: u16

text \<open>
  What C leaves undefined, or aborts on, is a value of the model: a dereference of
  \<^verbatim>\<open>NULL\<close>, an access outside the allocated block (of the stream or of the source
  buffer), a shift by a negative count, and a failed \<^verbatim>\<open>assert\<close>.
\<close>

datatype fault = NullPointer | OutOfBounds | NegativeShift | AssertFailed

text \<open>Modelled from the spec: the macro \<^verbatim>\<open>BITS_PER_BYTE\<close> of the missing header; a byte
  has eight bits.\<close>

definition BITS_PER_BYTE :: nat where
  "BITS_PER_BYTE = 8"

text \<open>Modelled from the spec: the macro \<^verbatim>\<open>DECL_BYTE_OFFSET\<close> of the missing header; for a
  global bit offset \<open>o\<close> the byte index is \<open>o / 8\<close>.\<close>

definition BYTE_OFFSET :: "u16 \<Rightarrow> nat" where
  "BYTE_OFFSET offset = unat offset div BITS_PER_BYTE"

text \<open>Modelled from the spec: the macro \<^verbatim>\<open>DECL_BITS_OFFSET\<close> of the missing header; for a
  global bit offset \<open>o\<close> the intra-byte bit offset is \<open>o % 8\<close>.\<close>

definition BITS_OFFSET :: "u16 \<Rightarrow> nat" where
  "BITS_OFFSET offset = unat offset mod BITS_PER_BYTE"

text \<open>\<^verbatim>\<open>p[i]\<close> as an rvalue and \<^verbatim>\<open>p[i] = v\<close>, on a pointer that may be \<^verbatim>\<open>NULL\<close> and a
  block of known size.\<close>

definition load :: "u8 list option \<Rightarrow> nat \<Rightarrow> fault + u8" where
  "load p i =
     (case p of
        None \<Rightarrow> Inl NullPointer
      | Some xs \<Rightarrow> if i < length xs then Inr (xs ! i) else Inl OutOfBounds)"

definition store :: "u8 list option \<Rightarrow> nat \<Rightarrow> u8 \<Rightarrow> fault + u8 list option" where
  "store p i v =
     (case p of
        None \<Rightarrow> Inl NullPointer
      | Some xs \<Rightarrow> if i < length xs then Inr (Some (xs[i := v])) else Inl OutOfBounds)"

section \<open>Bit primitives\<close>

text \<open>
  \<^verbatim>\<open>BitStreamPutByte\<close> (lines 232-264). The operands of the C expressions are promoted
  to \<^verbatim>\<open>int\<close> and every result is stored into a \<^verbatim>\<open>uint8_t\<close>; truncation to eight bits
  commutes with \<^verbatim>\<open>&\<close>, \<^verbatim>\<open>|\<close>, \<^verbatim>\<open>~\<close> and \<^verbatim>\<open><<\<close>, and every \<^verbatim>\<open>>>\<close> is applied to a value
  below 256, so the computation is done on 8-bit words. The shift counts
  \<^verbatim>\<open>BITS_PER_BYTE - nbits\<close> (under \<^verbatim>\<open>nbits < 8\<close>) and \<^verbatim>\<open>BITS_PER_BYTE - (j + curBits)\<close>
  are never negative; \<^verbatim>\<open>BITS_PER_BYTE - curBits\<close> of the second half is negative when
  more than eight bits remain, which C leaves undefined. The function returns the
  updated stream and \<^verbatim>\<open>bitsCopied\<close>.
\<close>

definition BitStreamPutByte ::
  "BitStream \<Rightarrow> u8 \<Rightarrow> u16 \<Rightarrow> u16 \<Rightarrow> fault + (BitStream \<times> u16)" where
  "BitStreamPutByte bs byte offset n =
     (let i = BYTE_OFFSET offset;
          j = BITS_OFFSET offset;
          byte1 = (if unat n < 8 then push_bit (BITS_PER_BYTE - unat n) byte else byte);
          curBits = min (BITS_PER_BYTE - j) (unat n);
          mask = drop_bit j (0xFF :: u8) AND push_bit (BITS_PER_BYTE - (j + curBits)) 0xFF
      in case load (array bs) i of
           Inl e \<Rightarrow> Inl e
         | Inr a0 \<Rightarrow>
             (case store (array bs) i ((a0 AND NOT mask) OR (drop_bit j byte1 AND mask)) of
                Inl e \<Rightarrow> Inl e
              | Inr arr1 \<Rightarrow>
                  let byte2 = push_bit curBits byte1 in
                  if curBits < unat n then
                    let curBits2 = unat n - curBits in
                    if BITS_PER_BYTE < curBits2 then Inl NegativeShift
                    else
                      let mask2 = push_bit (BITS_PER_BYTE - curBits2) (0xFF :: u8) in
                      case load arr1 (i + 1) of
                        Inl e \<Rightarrow> Inl e
                      | Inr a1 \<Rightarrow>
                          (case store arr1 (i + 1) ((a1 AND NOT mask2) OR (byte2 AND mask2)) of
                             Inl e \<Rightarrow> Inl e
                           | Inr arr2 \<Rightarrow>
                               Inr (bs\<lparr>array := arr2\<rparr>, of_nat (curBits + curBits2)))
                  else Inr (bs\<lparr>array := arr1\<rparr>, of_nat curBits)))"

text \<open>
  \<^verbatim>\<open>BitStreamGetByte\<close> (lines 290-324). The output parameter \<^verbatim>\<open>*byte\<close> is passed in
  with its old value and returned with its new one: the early return leaves it
  untouched. The range test \<^verbatim>\<open>offset + nbits > bs->nbits\<close> is evaluated on \<^verbatim>\<open>int\<close>, so the
  sum does not wrap.
\<close>

definition BitStreamGetByte ::
  "BitStream \<Rightarrow> u8 \<Rightarrow> u16 \<Rightarrow> u16 \<Rightarrow> fault + (u8 \<times> u16)" where
  "BitStreamGetByte bs byte offset n =
     (let i = BYTE_OFFSET offset;
          j = BITS_OFFSET offset
      in if unat offset + unat n > unat (nbits bs) then Inr (byte, 0)
         else
           let curBits = min (BITS_PER_BYTE - j) (unat n);
               mask = drop_bit j (0xFF :: u8) AND push_bit (BITS_PER_BYTE - (j + curBits)) 0xFF
           in case load (array bs) i of
                Inl e \<Rightarrow> Inl e
              | Inr a0 \<Rightarrow>
                  let byte1 = push_bit j (a0 AND mask) in
                  if curBits < unat n then
                    let curBits2 = unat n - curBits in
                    if BITS_PER_BYTE < curBits2 then Inl NegativeShift
                    else
                      let mask2 = push_bit (BITS_PER_BYTE - curBits2) (0xFF :: u8) in
                      case load (array bs) (i + 1) of
                        Inl e \<Rightarrow> Inl e
                      | Inr a1 \<Rightarrow>
                          let byte2 = byte1 OR drop_bit (BITS_PER_BYTE - j) (a1 AND mask2) in
                          Inr (if unat n < 8 then drop_bit (BITS_PER_BYTE - unat n) byte2
                               else byte2,
                               of_nat (curBits + curBits2))
                  else
                    Inr (if unat n < 8 then drop_bit (BITS_PER_BYTE - unat n) byte1 else byte1,
                         of_nat curBits))"


section \<open>Allocation, creation and rebinding\<close>

text \<open>
  The allocator is outside the program: whether a call succeeds is a parameter of the
  model (\<open>ok\<close>), and so is the content of memory that C leaves indeterminate
  (\<open>fresh k\<close> is the byte found at index \<open>k\<close> of a block that \<^verbatim>\<open>realloc\<close> has extended).
  \<^verbatim>\<open>calloc\<close> returns a zero-filled block or \<^verbatim>\<open>NULL\<close>; \<^verbatim>\<open>realloc\<close> returns a block of the
  new size that keeps the old content up to the smaller of the two sizes, or \<^verbatim>\<open>NULL\<close>.
\<close>

definition calloc :: "bool \<Rightarrow> nat \<Rightarrow> u8 list option" where
  "calloc ok n = (if ok then Some (replicate n 0) else None)"

definition realloc :: "bool \<Rightarrow> (nat \<Rightarrow> u8) \<Rightarrow> u8 list \<Rightarrow> nat \<Rightarrow> u8 list option" where
  "realloc ok fresh xs n =
     (if ok then Some (map (\<lambda>k. if k < length xs then xs ! k else fresh k) [0..<n])
      else None)"

text \<open>
  \<^verbatim>\<open>BitStreamCreate\<close> (lines 98-119). \<open>ok_bs\<close> is the outcome of the \<^verbatim>\<open>malloc\<close> of the
  structure, \<open>ok_array\<close> that of the \<^verbatim>\<open>calloc\<close> of the bytes. The statement
  \<^verbatim>\<open>bs->nbits = nbits\<close> stands outside the test \<^verbatim>\<open>bs != NULL\<close>, so after a failed
  allocation it dereferences \<^verbatim>\<open>NULL\<close>. The \<^verbatim>\<open>memset\<close> is called with the byte count as
  the fill value and \<^verbatim>\<open>'\0'\<close> as the count: it writes nothing, and the block stays as
  \<^verbatim>\<open>calloc\<close> returned it.
\<close>

definition BitStreamCreate :: "bool \<Rightarrow> bool \<Rightarrow> u16 \<Rightarrow> fault + BitStream" where
  "BitStreamCreate ok_bs ok_array n =
     (if ok_bs then
        if n \<noteq> 0 then
          case calloc ok_array ((unat n + BITS_PER_BYTE - 1) div BITS_PER_BYTE) of
            None \<Rightarrow> Inl NullPointer
          | Some xs \<Rightarrow> Inr \<lparr>array = Some xs, nbits = n\<rparr>
        else Inr \<lparr>array = None, nbits = n\<rparr>
      else Inl NullPointer)"

text \<open>
  \<^verbatim>\<open>BitStreamRealloc\<close> (lines 140-159), on a stream that exists (for \<^verbatim>\<open>bs == NULL\<close> the
  function does nothing). \<open>buffer\<close> is the caller's block, \<open>None\<close> for \<^verbatim>\<open>NULL\<close>.
\<close>

definition BitStreamRealloc ::
  "bool \<Rightarrow> (nat \<Rightarrow> u8) \<Rightarrow> BitStream \<Rightarrow> u8 list option \<Rightarrow> u16 \<Rightarrow> BitStream" where
  "BitStreamRealloc ok fresh bs buffer n =
     (case array bs of
        Some xs \<Rightarrow>
          (case buffer of
             Some b \<Rightarrow> bs\<lparr>array := Some b, nbits := n\<rparr>
           | None \<Rightarrow>
               if n \<noteq> 0 then
                 bs\<lparr>array := realloc ok fresh xs
                               ((unat n + BITS_PER_BYTE - 1) div BITS_PER_BYTE),
                    nbits := n\<rparr>
               else bs\<lparr>array := None, nbits := n\<rparr>)
      | None \<Rightarrow> bs\<lparr>array := buffer, nbits := n\<rparr>)"

text \<open>
  The invariant of the data model: no storage exactly when the bit length is zero, and
  otherwise \<open>ceil (bit_length / 8)\<close> bytes of storage.
\<close>

definition bs_inv :: "BitStream \<Rightarrow> bool" where
  "bs_inv bs =
     (case array bs of
        None \<Rightarrow> nbits bs = 0
      | Some xs \<Rightarrow>
          nbits bs \<noteq> 0 \<and>
          length xs = (unat (nbits bs) + BITS_PER_BYTE - 1) div BITS_PER_BYTE)"

section \<open>Filling from bytes\<close>

text \<open>
  \<^verbatim>\<open>BitStreamFill\<close> (lines 340-348). The source \<^verbatim>\<open>inp\<close> is a block of known size, read
  front to back by \<^verbatim>\<open>*inp++\<close>; reading past its end is outside the block. The counter
  \<^verbatim>\<open>bitsCopied\<close> is a \<^verbatim>\<open>uint16_t\<close>, so \<^verbatim>\<open>+=\<close> wraps modulo \<open>2 ^ 16\<close>. The parameter
  \<^verbatim>\<open>nbits\<close> of the C function is the third argument; the body never reads it.
\<close>

fun fill_loop :: "BitStream \<Rightarrow> u8 list \<Rightarrow> u16 \<Rightarrow> fault + (BitStream \<times> u16)" where
  "fill_loop bs [] bitsCopied =
     (if bitsCopied < nbits bs then Inl OutOfBounds else Inr (bs, bitsCopied))"
| "fill_loop bs (b # inp) bitsCopied =
     (if bitsCopied < nbits bs then
        case BitStreamPutByte bs b bitsCopied (of_nat BITS_PER_BYTE) of
          Inl e \<Rightarrow> Inl e
        | Inr (bs', r) \<Rightarrow> fill_loop bs' inp (bitsCopied + r)
      else Inr (bs, bitsCopied))"

definition BitStreamFill :: "BitStream \<Rightarrow> u8 list \<Rightarrow> u16 \<Rightarrow> fault + (BitStream \<times> u16)" where
  "BitStreamFill bs inp n = fill_loop bs inp 0"

section \<open>Hexadecimal decoding\<close>

text \<open>
  The value of a plain \<^verbatim>\<open>char\<close>, signed as on the common ABIs. (With an unsigned
  \<^verbatim>\<open>char\<close> the tests of \<^verbatim>\<open>xtoi\<close> come out the same: a code above 127 fails all of them
  either way.)
\<close>

definition char_code :: "char \<Rightarrow> int" where
  "char_code c = (let k = of_char c in if k < 128 then k else k - 256)"

text \<open>
  \<^verbatim>\<open>xtoi\<close> (lines 37-48). The third test is written \<^verbatim>\<open>c <- 'F'\<close> in the source, which
  C reads as \<^verbatim>\<open>c < -'F'\<close>. \<^verbatim>\<open>assert(0)\<close> aborts the program.
\<close>

definition xtoi :: "char \<Rightarrow> fault + u8" where
  "xtoi ch =
     (let c = char_code ch in
      if c \<ge> char_code CHR ''0'' \<and> c \<le> char_code CHR ''9'' then
        Inr (word_of_int (c - char_code CHR ''0''))
      else if c \<ge> char_code CHR ''a'' \<and> c \<le> char_code CHR ''f'' then
        Inr (word_of_int (c - char_code CHR ''a'' + 10))
      else if c \<ge> char_code CHR ''A'' \<and> c < - char_code CHR ''F'' then
        Inr (word_of_int (c - char_code CHR ''A'' + 10))
      else Inl AssertFailed)"

text \<open>
  A C string is the characters before its terminating \<^verbatim>\<open>NUL\<close>: \<^verbatim>\<open>in[i]\<close> at
  \<open>i = strlen in\<close> is the terminator.
\<close>

definition char_at :: "string \<Rightarrow> nat \<Rightarrow> char" where
  "char_at s i = (if i < length s then s ! i else CHR 0x00)"

text \<open>
  \<^verbatim>\<open>strtox\<close> (lines 68-86). \<^verbatim>\<open>short len = strlen(in)\<close> keeps the low 16 bits of the
  length, read as a signed value. The loop counters stay between 0 and \<open>len\<close>, so they
  are natural numbers here. The function returns the output block and its \<^verbatim>\<open>int32_t\<close>
  result. The test \<^verbatim>\<open>j >= size\<close> comes after the store and after \<^verbatim>\<open>j++\<close>.
\<close>

function strtox_loop ::
  "string \<Rightarrow> int \<Rightarrow> u16 \<Rightarrow> u8 list option \<Rightarrow> nat \<Rightarrow> nat \<Rightarrow> fault + (u8 list option \<times> int)" where
  "strtox_loop s len sz out i j =
     (if int i < len then
        case xtoi (char_at s i) of
          Inl e \<Rightarrow> Inl e
        | Inr ll \<Rightarrow>
            (case xtoi (char_at s (i + 1)) of
               Inl e \<Rightarrow> Inl e
             | Inr uu \<Rightarrow>
                 (case store out j (push_bit 4 ll OR uu) of
                    Inl e \<Rightarrow> Inl e
                  | Inr out' \<Rightarrow>
                      if int (j + 1) \<ge> uint sz then Inr (out', - 1)
                      else strtox_loop s len sz out' (i + 2) (j + 1)))
      else Inr (out, int j))"
  by pat_completeness auto
termination
  by (relation "measure (\<lambda>(s, len, sz, out, i, j). nat (len - int i))") auto

declare strtox_loop.simps [simp del]

definition strtox :: "string \<Rightarrow> u8 list option \<Rightarrow> u16 \<Rightarrow> fault + (u8 list option \<times> int)" where
  "strtox s out sz =
     (let len = sint (word_of_nat (length s) :: 16 word)
      in if len mod 2 \<noteq> 0 then
           case xtoi (char_at s 0) of
             Inl e \<Rightarrow> Inl e
           | Inr d \<Rightarrow>
               (case store out 0 d of
                  Inl e \<Rightarrow> Inl e
                | Inr out' \<Rightarrow> strtox_loop s len sz out' 1 1)
         else strtox_loop s len sz out 0 0)"

text \<open>
  \<^verbatim>\<open>BitStreamFillAscii\<close> (lines 362-372), on a stream that exists. \<^verbatim>\<open>size\<close> and the bit
  count \<^verbatim>\<open>size * BITS_PER_BYTE\<close> are truncated to 16 bits where they are stored or passed.
  The result of \<^verbatim>\<open>strtox\<close> is discarded; the bytes it wrote stay in the stream.
\<close>

definition BitStreamFillAscii ::
  "bool \<Rightarrow> (nat \<Rightarrow> u8) \<Rightarrow> BitStream \<Rightarrow> string \<Rightarrow> fault + (BitStream \<times> u16)" where
  "BitStreamFillAscii ok fresh bs inp =
     (let sz = (word_of_nat ((length inp + 1) div 2) :: u16);
          bs1 = BitStreamRealloc ok fresh bs None (sz * of_nat BITS_PER_BYTE)
      in case strtox inp (array bs1) sz of
           Inl e \<Rightarrow> Inl e
         | Inr (out, r) \<Rightarrow> Inr (bs1\<lparr>array := out\<rparr>, sz * of_nat BITS_PER_BYTE))"

section \<open>Exclusive or\<close>

datatype xor_error = LengthMismatch

text \<open>Modelled from the spec: \<^verbatim>\<open>BitStreamExclusiveOr\<close> is called by the driver, but its
  definition is not among the sources. The specification's \<open>xor (a, b)\<close> requires
  \<open>a.bit_length = b.bit_length\<close> and produces a new buffer of the same bit length whose
  bytes are the byte-wise XOR of the bytes of \<open>a\<close> and \<open>b\<close>; with different lengths it
  fails with \<open>LengthMismatch\<close> and produces no buffer.\<close>

definition BitStreamExclusiveOr :: "BitStream \<Rightarrow> BitStream \<Rightarrow> xor_error + BitStream" where
  "BitStreamExclusiveOr a b =
     (if nbits a = nbits b then
        Inr \<lparr>array =
               (case (array a, array b) of
                  (Some xs, Some ys) \<Rightarrow> Some (map2 (XOR) xs ys)
                | _ \<Rightarrow> None),
             nbits = nbits a\<rparr>
      else Inl LengthMismatch)"

section \<open>Names for the pieces of the bit primitives\<close>

text \<open>
  The sub-expressions of \<^verbatim>\<open>BitStreamPutByte\<close> and \<^verbatim>\<open>BitStreamGetByte\<close>, named for the
  proofs: the left and right alignment of a value of \<open>n\<close> bits, the mask of the bits
  written in the first byte (\<open>c\<close> bits from bit offset \<open>j\<close>), the mask of the \<open>c\<close> leading
  bits of the second byte, and the read-modify-write under a mask.
\<close>

definition align :: "nat \<Rightarrow> u8 \<Rightarrow> u8" where
  "align n byte = (if n < 8 then push_bit (BITS_PER_BYTE - n) byte else byte)"

definition unalign :: "nat \<Rightarrow> u8 \<Rightarrow> u8" where
  "unalign n byte = (if n < 8 then drop_bit (BITS_PER_BYTE - n) byte else byte)"

definition mask1 :: "nat \<Rightarrow> nat \<Rightarrow> u8" where
  "mask1 j c = drop_bit j (0xFF :: u8) AND push_bit (BITS_PER_BYTE - (j + c)) 0xFF"

definition mask2 :: "nat \<Rightarrow> u8" where
  "mask2 c = push_bit (BITS_PER_BYTE - c) (0xFF :: u8)"

definition blend :: "u8 \<Rightarrow> u8 \<Rightarrow> u8 \<Rightarrow> u8" where
  "blend a m x = (a AND NOT m) OR (x AND m)"

section \<open>Names for the results of decoding\<close>

text \<open>
  A character is accepted when \<^verbatim>\<open>xtoi\<close> returns a value for it, and \<open>digit\<close> is that value.
  \<open>decoded\<close> states the convention of the specification in its own words, to compare
  \<^verbatim>\<open>strtox\<close> with: in a string of odd length the first character alone is a single digit,
  in the low nibble of the first byte; the rest is decoded in pairs, most significant
  nibble first.
\<close>

definition accepted :: "char \<Rightarrow> bool" where
  "accepted c = (case xtoi c of Inl e \<Rightarrow> False | Inr v \<Rightarrow> True)"

definition digit :: "char \<Rightarrow> u8" where
  "digit c = (case xtoi c of Inl e \<Rightarrow> 0 | Inr v \<Rightarrow> v)"

fun pair_bytes :: "string \<Rightarrow> u8 list" where
  "pair_bytes (a # b # cs) = (push_bit 4 (digit a) OR digit b) # pair_bytes cs"
| "pair_bytes cs = []"

definition decoded :: "string \<Rightarrow> u8 list" where
  "decoded s = (if odd (length s) then digit (hd s) # pair_bytes (tl s) else pair_bytes s)"

section \<open>The bit primitives through their named pieces\<close>

lemma BitStreamPutByte_alt:
  "BitStreamPutByte bs byte offset n =
     (let i = BYTE_OFFSET offset;
          j = BITS_OFFSET offset;
          c = min (BITS_PER_BYTE - j) (unat n)
      in case load (array bs) i of
           Inl e \<Rightarrow> Inl e
         | Inr a0 \<Rightarrow>
             (case store (array bs) i (blend a0 (mask1 j c) (drop_bit j (align (unat n) byte))) of
                Inl e \<Rightarrow> Inl e
              | Inr arr1 \<Rightarrow>
                  if c < unat n then
                    if BITS_PER_BYTE < unat n - c then Inl NegativeShift
                    else
                      case load arr1 (i + 1) of
                        Inl e \<Rightarrow> Inl e
                      | Inr a1 \<Rightarrow>
                          (case store arr1 (i + 1)
                                  (blend a1 (mask2 (unat n - c)) (push_bit c (align (unat n) byte))) of
                             Inl e \<Rightarrow> Inl e
                           | Inr arr2 \<Rightarrow> Inr (bs\<lparr>array := arr2\<rparr>, of_nat (c + (unat n - c))))
                  else Inr (bs\<lparr>array := arr1\<rparr>, of_nat c)))"
  by (simp only: BitStreamPutByte_def Let_def align_def mask1_def mask2_def blend_def)

lemma BitStreamGetByte_alt:
  "BitStreamGetByte bs byte offset n =
     (let i = BYTE_OFFSET offset;
          j = BITS_OFFSET offset;
          c = min (BITS_PER_BYTE - j) (unat n)
      in if unat offset + unat n > unat (nbits bs) then Inr (byte, 0)
         else
           case load (array bs) i of
             Inl e \<Rightarrow> Inl e
           | Inr a0 \<Rightarrow>
               if c < unat n then
                 if BITS_PER_BYTE < unat n - c then Inl NegativeShift
                 else
                   case load (array bs) (i + 1) of
                     Inl e \<Rightarrow> Inl e
                   | Inr a1 \<Rightarrow>
                       Inr (unalign (unat n)
                              (push_bit j (a0 AND mask1 j c) OR
                               drop_bit (BITS_PER_BYTE - j) (a1 AND mask2 (unat n - c))),
                            of_nat (c + (unat n - c)))
               else Inr (unalign (unat n) (push_bit j (a0 AND mask1 j c)), of_nat c))"
  by (simp only: BitStreamGetByte_def Let_def unalign_def mask1_def mask2_def)

lemma bits_offset_less: "BITS_OFFSET offset < 8"
  by (simp add: BITS_OFFSET_def BITS_PER_BYTE_def)

lemma put_single:
  assumes "array bs = Some xs" "BYTE_OFFSET offset < length xs" "BITS_OFFSET offset + unat n \<le> 8"
  shows "BitStreamPutByte bs v offset n =
    Inr (bs\<lparr>array := Some (xs[BYTE_OFFSET offset :=
           blend (xs ! BYTE_OFFSET offset) (mask1 (BITS_OFFSET offset) (unat n))
             (drop_bit (BITS_OFFSET offset) (align (unat n) v))])\<rparr>, n)"
proof -
  have m: "min (8 - BITS_OFFSET offset) (unat n) = unat n" using assms(3) by simp
  show ?thesis
    using assms(1,2)
    by (simp add: BitStreamPutByte_alt Let_def BITS_PER_BYTE_def m load_def store_def)
qed

lemma put_span:
  assumes "array bs = Some xs" "BYTE_OFFSET offset + 1 < length xs"
    "8 - BITS_OFFSET offset < unat n" "unat n \<le> 8"
  shows "BitStreamPutByte bs v offset n =
    Inr (bs\<lparr>array := Some (xs[BYTE_OFFSET offset :=
           blend (xs ! BYTE_OFFSET offset) (mask1 (BITS_OFFSET offset) (8 - BITS_OFFSET offset))
             (drop_bit (BITS_OFFSET offset) (align (unat n) v)),
         BYTE_OFFSET offset + 1 :=
           blend (xs ! (BYTE_OFFSET offset + 1)) (mask2 (unat n - (8 - BITS_OFFSET offset)))
             (push_bit (8 - BITS_OFFSET offset) (align (unat n) v))])\<rparr>, n)"
proof -
  have m: "min (8 - BITS_OFFSET offset) (unat n) = 8 - BITS_OFFSET offset"
    using assms(3) by simp
  have s: "8 - BITS_OFFSET offset + (unat n - (8 - BITS_OFFSET offset)) = unat n"
    using assms(3) by simp
  have c: "\<not> 8 < unat n - (8 - BITS_OFFSET offset)"
    using assms(4) by simp
  show ?thesis
    using assms(1,2,3) c
    by (simp add: BitStreamPutByte_alt Let_def BITS_PER_BYTE_def m s load_def store_def)
qed

lemma get_single:
  assumes "array bs = Some xs" "BYTE_OFFSET offset < length xs" "BITS_OFFSET offset + unat n \<le> 8"
    "unat offset + unat n \<le> unat (nbits bs)"
  shows "BitStreamGetByte bs b offset n =
    Inr (unalign (unat n) (push_bit (BITS_OFFSET offset)
      (xs ! BYTE_OFFSET offset AND mask1 (BITS_OFFSET offset) (unat n))), n)"
proof -
  have m: "min (8 - BITS_OFFSET offset) (unat n) = unat n" using assms(3) by simp
  show ?thesis
    using assms(1,2,4)
    by (simp add: BitStreamGetByte_alt Let_def BITS_PER_BYTE_def m load_def)
qed

lemma get_span:
  assumes "array bs = Some xs" "BYTE_OFFSET offset + 1 < length xs"
    "8 - BITS_OFFSET offset < unat n" "unat n \<le> 8"
    "unat offset + unat n \<le> unat (nbits bs)"
  shows "BitStreamGetByte bs b offset n =
    Inr (unalign (unat n)
          (push_bit (BITS_OFFSET offset)
             (xs ! BYTE_OFFSET offset AND mask1 (BITS_OFFSET offset) (8 - BITS_OFFSET offset)) OR
           drop_bit (8 - BITS_OFFSET offset)
             (xs ! (BYTE_OFFSET offset + 1) AND mask2 (unat n - (8 - BITS_OFFSET offset)))), n)"
proof -
  have m: "min (8 - BITS_OFFSET offset) (unat n) = 8 - BITS_OFFSET offset"
    using assms(3) by simp
  have s: "8 - BITS_OFFSET offset + (unat n - (8 - BITS_OFFSET offset)) = unat n"
    using assms(3) by simp
  have c: "\<not> 8 < unat n - (8 - BITS_OFFSET offset)"
    using assms(4) by simp
  show ?thesis
    using assms(1,2,3,5) c
    by (simp add: BitStreamGetByte_alt Let_def BITS_PER_BYTE_def m s load_def)
qed

section \<open>Bit-level facts\<close>

lemma ff_minus1: "(0xFF :: u8) = - 1"
  by simp

lemma blend_and_mask: "blend a m x AND m = x AND m"
  unfolding blend_def by (rule bit_eqI) (auto simp: bit_simps)

lemma align_push: "align n v = push_bit (8 - n) v"
  by (simp add: align_def BITS_PER_BYTE_def)

lemma unalign_drop: "unalign n v = drop_bit (8 - n) v"
  by (simp add: unalign_def BITS_PER_BYTE_def)

lemma rt_single:
  assumes "j + n \<le> 8"
  shows "unalign n (push_bit j (blend a0 (mask1 j n) (drop_bit j (align n v)) AND mask1 j n))
   = take_bit n v"
  unfolding blend_and_mask align_push unalign_drop mask1_def BITS_PER_BYTE_def ff_minus1
  using assms by (intro bit_eqI) (auto simp add: bit_simps)

lemma rt_span:
  assumes "j < 8" "n \<le> 8" "8 - j < n"
  shows "unalign n
      (push_bit j (blend a0 (mask1 j (8 - j)) (drop_bit j (align n v)) AND mask1 j (8 - j)) OR
       drop_bit (8 - j) (blend a1 (mask2 (n - (8 - j))) (push_bit (8 - j) (align n v)) AND
                         mask2 (n - (8 - j))))
   = take_bit n v"
  unfolding blend_and_mask align_push unalign_drop mask1_def mask2_def BITS_PER_BYTE_def ff_minus1
  using assms by (intro bit_eqI) (auto simp add: bit_simps)

section \<open>Storage bounds under the invariant\<close>

lemma byte_index_bound:
  fixes off n N :: nat
  assumes "off + n \<le> N" "1 \<le> n"
  shows "off div 8 < (N + 7) div 8"
proof -
  have "off + 8 \<le> N + 7" using assms by simp
  then have "(off + 8) div 8 \<le> (N + 7) div 8" by (rule div_le_mono)
  then show ?thesis by simp
qed

lemma next_byte_index_bound:
  fixes off n N :: nat
  assumes "off + n \<le> N" "8 - off mod 8 < n"
  shows "off div 8 + 1 < (N + 7) div 8"
proof -
  have "off = 8 * (off div 8) + off mod 8" by simp
  then have "8 * (off div 8) + 16 \<le> N + 7" using assms by linarith
  then have "(8 * (off div 8) + 16) div 8 \<le> (N + 7) div 8" by (rule div_le_mono)
  then show ?thesis by simp
qed

lemma inv_length:
  assumes "bs_inv bs" "array bs = Some xs"
  shows "length xs = (unat (nbits bs) + 7) div 8"
  using assms by (simp add: bs_inv_def BITS_PER_BYTE_def)

lemma inv_in_range:
  assumes "bs_inv bs" "array bs = Some xs" "unat offset + unat n \<le> unat (nbits bs)" "1 \<le> unat n"
  shows "BYTE_OFFSET offset < length xs"
    and "8 - BITS_OFFSET offset < unat n \<Longrightarrow> BYTE_OFFSET offset + 1 < length xs"
proof -
  note len = inv_length [OF assms(1,2)]
  show "BYTE_OFFSET offset < length xs"
    unfolding len BYTE_OFFSET_def BITS_PER_BYTE_def
    using assms(3,4) by (rule byte_index_bound)
  show "BYTE_OFFSET offset + 1 < length xs" if "8 - BITS_OFFSET offset < unat n"
    unfolding len BYTE_OFFSET_def BITS_PER_BYTE_def
    using assms(3) that [unfolded BITS_OFFSET_def BITS_PER_BYTE_def]
    by (rule next_byte_index_bound)
qed

lemma inv_Some:
  assumes "bs_inv bs" "unat offset + unat n \<le> unat (nbits bs)" "1 \<le> unat n"
  shows "\<exists>xs. array bs = Some xs"
  using assms by (cases "array bs") (auto simp: bs_inv_def)

section \<open>Round trip of the bit primitives\<close>

text \<open>
  Claim C1. On a buffer that satisfies the invariant of the data model, for a width
  \<open>n\<close> from 1 to 8 and an offset with \<open>offset + n \<le> bit_length\<close>, \<^verbatim>\<open>BitStreamPutByte\<close>
  writes \<open>n\<close> bits, and \<^verbatim>\<open>BitStreamGetByte\<close> on the resulting buffer, at the same offset
  and width, reads \<open>n\<close> bits and returns the \<open>n\<close> low-order bits of the value written.
\<close>

theorem put_get_roundtrip:
  assumes inv: "bs_inv bs"
      and n: "1 \<le> unat n" "unat n \<le> 8"
      and range: "unat offset + unat n \<le> unat (nbits bs)"
  shows "\<exists>bs'. BitStreamPutByte bs v offset n = Inr (bs', n) \<and>
               BitStreamGetByte bs' b offset n = Inr (take_bit (unat n) v, n)"
proof -
  obtain xs where xs: "array bs = Some xs"
    using inv_Some [OF inv range n(1)] by blast
  let ?i = "BYTE_OFFSET offset" and ?j = "BITS_OFFSET offset"
  have i: "?i < length xs"
    using inv_in_range(1) [OF inv xs range n(1)] .
  have j: "?j < 8"
    by (rule bits_offset_less)
  show ?thesis
  proof (cases "8 - ?j < unat n")
    case False
    then have le: "?j + unat n \<le> 8" using j by simp
    let ?ys = "xs[?i := blend (xs ! ?i) (mask1 ?j (unat n)) (drop_bit ?j (align (unat n) v))]"
    let ?bs' = "bs\<lparr>array := Some ?ys\<rparr>"
    have put: "BitStreamPutByte bs v offset n = Inr (?bs', n)"
      by (rule put_single [OF xs i le])
    have "BitStreamGetByte ?bs' b offset n =
        Inr (unalign (unat n) (push_bit ?j (?ys ! ?i AND mask1 ?j (unat n))), n)"
      by (rule get_single) (use i le range in simp_all)
    also have "?ys ! ?i = blend (xs ! ?i) (mask1 ?j (unat n)) (drop_bit ?j (align (unat n) v))"
      using i by simp
    finally have "BitStreamGetByte ?bs' b offset n = Inr (take_bit (unat n) v, n)"
      by (simp only: rt_single [OF le])
    with put show ?thesis by blast
  next
    case True
    have i1: "?i + 1 < length xs"
      using inv_in_range(2) [OF inv xs range n(1) True] .
    let ?w0 = "blend (xs ! ?i) (mask1 ?j (8 - ?j)) (drop_bit ?j (align (unat n) v))"
    let ?w1 = "blend (xs ! (?i + 1)) (mask2 (unat n - (8 - ?j)))
                 (push_bit (8 - ?j) (align (unat n) v))"
    let ?ys = "xs[?i := ?w0, ?i + 1 := ?w1]"
    let ?bs' = "bs\<lparr>array := Some ?ys\<rparr>"
    have put: "BitStreamPutByte bs v offset n = Inr (?bs', n)"
      by (rule put_span [OF xs i1 True n(2)])
    have "BitStreamGetByte ?bs' b offset n =
        Inr (unalign (unat n)
          (push_bit ?j (?ys ! ?i AND mask1 ?j (8 - ?j)) OR
           drop_bit (8 - ?j) (?ys ! (?i + 1) AND mask2 (unat n - (8 - ?j)))), n)"
      by (rule get_span) (use i1 True n range in simp_all)
    also have "?ys ! ?i = ?w0"
      using i by simp
    also have "?ys ! (?i + 1) = ?w1"
      using i1 by simp
    finally have "BitStreamGetByte ?bs' b offset n = Inr (take_bit (unat n) v, n)"
      by (simp only: rt_span [OF j n(2) True])
    with put show ?thesis by blast
  qed
qed

theorem put_get_roundtrip_witness:
  "bs_inv \<lparr>array = Some [0xAB, 0xCD, 0xEF], nbits = 24\<rparr> \<and>
   1 \<le> unat (5 :: u16) \<and> unat (5 :: u16) \<le> 8 \<and>
   unat (6 :: u16) + unat (5 :: u16) \<le> unat (24 :: u16) \<and>
   (\<exists>bs'. BitStreamPutByte \<lparr>array = Some [0xAB, 0xCD, 0xEF], nbits = 24\<rparr> 0xF6 6 5 = Inr (bs', 5) \<and>
          BitStreamGetByte bs' 0 6 5 = Inr (0x16, 5))"
proof -
  have inv: "bs_inv \<lparr>array = Some [0xAB, 0xCD, 0xEF], nbits = 24\<rparr>"
    by (simp add: bs_inv_def BITS_PER_BYTE_def)
  have n: "1 \<le> unat (5 :: u16)" "unat (5 :: u16) \<le> 8"
    by simp_all
  have range: "unat (6 :: u16) + unat (5 :: u16) \<le> unat (nbits \<lparr>array = Some [0xAB, 0xCD, 0xEF], nbits = 24\<rparr>)"
    by simp
  have t: "take_bit (unat (5 :: u16)) (0xF6 :: u8) = 0x16"
    by simp
  show ?thesis
    using inv n range put_get_roundtrip [OF inv n range, of "0xF6" 0]
    unfolding t by simp
qed

section \<open>Reads out of range\<close>

lemma get_out_of_range:
  assumes "unat offset + unat n > unat (nbits bs)"
  shows "BitStreamGetByte bs b offset n = Inr (b, 0)"
  using assms by (simp add: BitStreamGetByte_def Let_def)

lemma nbits_Realloc: "nbits (BitStreamRealloc ok fresh bs buffer n) = n"
  by (simp add: BitStreamRealloc_def split: option.splits)

text \<open>
  Claim C4. \<^verbatim>\<open>BitStreamGetByte\<close> reads no bit and leaves the output byte as it was
  whenever \<open>offset + n\<close> exceeds the bit length of the buffer; and after
  \<^verbatim>\<open>BitStreamRealloc\<close> to 0 bits (with or without a caller's block, whatever the allocator
  does) every read of at least one bit is rejected in this way.
\<close>

theorem get_rejects_out_of_range:
  "(unat offset + unat n > unat (nbits bs) \<longrightarrow> BitStreamGetByte bs b offset n = Inr (b, 0)) \<and>
   (1 \<le> unat n \<longrightarrow>
      BitStreamGetByte (BitStreamRealloc ok fresh bs buffer 0) b offset n = Inr (b, 0))"
proof (intro conjI impI)
  assume "unat offset + unat n > unat (nbits bs)"
  then show "BitStreamGetByte bs b offset n = Inr (b, 0)"
    by (rule get_out_of_range)
next
  assume "1 \<le> unat n"
  then have "unat offset + unat n > unat (nbits (BitStreamRealloc ok fresh bs buffer 0))"
    by (simp add: nbits_Realloc)
  then show "BitStreamGetByte (BitStreamRealloc ok fresh bs buffer 0) b offset n = Inr (b, 0)"
    by (rule get_out_of_range)
qed

theorem get_rejects_out_of_range_witness:
  "unat (20 :: u16) + unat (5 :: u16) > unat (nbits \<lparr>array = Some [0xAB, 0xCD, 0xEF], nbits = 24\<rparr>) \<and>
   BitStreamGetByte \<lparr>array = Some [0xAB, 0xCD, 0xEF], nbits = 24\<rparr> 7 20 5 = Inr (7, 0) \<and>
   1 \<le> unat (5 :: u16) \<and>
   BitStreamGetByte
     (BitStreamRealloc True (\<lambda>k. 0) \<lparr>array = Some [0xAB, 0xCD, 0xEF], nbits = 24\<rparr> None 0)
     7 20 5 = Inr (7, 0)"
  using get_rejects_out_of_range
    [where offset = 20 and n = 5 and bs = "\<lparr>array = Some [0xAB, 0xCD, 0xEF], nbits = 24\<rparr>"
       and b = 7 and ok = True and fresh = "\<lambda>k. 0" and buffer = None]
  by simp

section \<open>A write across a byte boundary\<close>

lemma f0_push: "(0xF0 :: u8) = push_bit 4 (- 1)"
  by (simp add: push_bit_eq_mult)

lemma x0f_mask: "(0x0F :: u8) = mask 4"
  by (simp add: mask_eq_exp_minus_1)

lemma blend_low_nibble: "blend a (mask1 4 4) (drop_bit 4 (align 8 v)) = (a AND 0xF0) OR drop_bit 4 v"
  unfolding blend_def align_push mask1_def BITS_PER_BYTE_def ff_minus1 f0_push
  by (rule bit_eqI) (auto simp: bit_simps dest: bit_imp_le_length)

lemma blend_high_nibble: "blend a (mask2 4) (push_bit 4 (align 8 v)) = (a AND 0x0F) OR push_bit 4 v"
  unfolding blend_def align_push mask2_def BITS_PER_BYTE_def ff_minus1 x0f_mask
  by (rule bit_eqI) (auto simp: bit_simps)

lemma keeps_high_nibble: "((a AND 0xF0) OR drop_bit 4 v) AND 0xF0 = a AND (0xF0 :: u8)"
  unfolding f0_push
  by (rule bit_eqI) (auto simp: bit_simps dest: bit_imp_le_length)

text \<open>
  Claim C5. When bytes \<open>k\<close> and \<open>k + 1\<close> are in the storage, writing 8 bits at bit offset
  \<open>8 * k + 4\<close> succeeds, writes 8 bits, keeps the length of the storage and every byte
  other than \<open>k\<close> and \<open>k + 1\<close>, and keeps the most significant nibble of byte \<open>k\<close>: the
  new byte \<open>k\<close> holds the high nibble of the value in its low half, the new byte \<open>k + 1\<close>
  holds the low nibble of the value in its high half and keeps its own low half.
\<close>

theorem put_byte_spanning_frame:
  assumes xs: "array bs = Some xs"
      and k: "k + 1 < length xs"
      and off: "unat offset = 8 * k + 4"
  shows "\<exists>ys. BitStreamPutByte bs v offset 8 = Inr (bs\<lparr>array := Some ys\<rparr>, 8) \<and>
              length ys = length xs \<and>
              (\<forall>i < length xs. i \<noteq> k \<and> i \<noteq> k + 1 \<longrightarrow> ys ! i = xs ! i) \<and>
              ys ! k AND 0xF0 = xs ! k AND 0xF0 \<and>
              ys ! k = (xs ! k AND 0xF0) OR drop_bit 4 v \<and>
              ys ! (k + 1) = (xs ! (k + 1) AND 0x0F) OR push_bit 4 v"
proof -
  have i: "BYTE_OFFSET offset = k" and j: "BITS_OFFSET offset = 4"
    using off by (simp_all add: BYTE_OFFSET_def BITS_OFFSET_def BITS_PER_BYTE_def)
  let ?ys = "xs[k := (xs ! k AND 0xF0) OR drop_bit 4 v,
                k + 1 := (xs ! (k + 1) AND 0x0F) OR push_bit 4 v]"
  have "BitStreamPutByte bs v offset 8 = Inr (bs\<lparr>array := Some ?ys\<rparr>, 8)"
    using put_span [of bs xs offset 8 v] xs k
    by (simp add: i j blend_low_nibble blend_high_nibble)
  moreover have "length ?ys = length xs"
    by simp
  moreover have "\<forall>i < length xs. i \<noteq> k \<and> i \<noteq> k + 1 \<longrightarrow> ?ys ! i = xs ! i"
    by simp
  moreover have yk: "?ys ! k = (xs ! k AND 0xF0) OR drop_bit 4 v"
    using k by simp
  moreover have "?ys ! k AND 0xF0 = xs ! k AND 0xF0"
    unfolding yk by (rule keeps_high_nibble)
  moreover have "?ys ! (k + 1) = (xs ! (k + 1) AND 0x0F) OR push_bit 4 v"
    using k by simp
  ultimately show ?thesis by blast
qed

theorem put_byte_spanning_frame_witness:
  "array \<lparr>array = Some [0xAB, 0xCD, 0xEF], nbits = 24\<rparr> = Some [0xAB, 0xCD, 0xEF] \<and>
   1 + 1 < length [0xAB, 0xCD, 0xEF :: u8] \<and>
   unat (12 :: u16) = 8 * 1 + 4 \<and>
   (\<exists>ys. BitStreamPutByte \<lparr>array = Some [0xAB, 0xCD, 0xEF], nbits = 24\<rparr> 0x5A 12 8 =
           Inr (\<lparr>array = Some [0xAB, 0xCD, 0xEF], nbits = 24\<rparr>\<lparr>array := Some ys\<rparr>, 8) \<and>
         length ys = length [0xAB, 0xCD, 0xEF :: u8] \<and>
         (\<forall>i < length [0xAB, 0xCD, 0xEF :: u8].
            i \<noteq> 1 \<and> i \<noteq> 1 + 1 \<longrightarrow> ys ! i = [0xAB, 0xCD, 0xEF] ! i) \<and>
         ys ! 1 AND 0xF0 = [0xAB, 0xCD, 0xEF] ! 1 AND 0xF0 \<and>
         ys ! 1 = ([0xAB, 0xCD, 0xEF] ! 1 AND 0xF0) OR drop_bit 4 0x5A \<and>
         ys ! (1 + 1) = ([0xAB, 0xCD, 0xEF] ! (1 + 1) AND 0x0F) OR push_bit 4 0x5A)"
proof -
  have xs: "array \<lparr>array = Some [0xAB, 0xCD, 0xEF], nbits = 24\<rparr> = Some [0xAB, 0xCD, 0xEF]"
    by simp
  have k: "1 + 1 < length [0xAB, 0xCD, 0xEF :: u8]"
    by simp
  have off: "unat (12 :: u16) = 8 * 1 + 4"
    by simp
  from xs k off put_byte_spanning_frame [OF xs k off, of "0x5A"]
  show ?thesis
    by (intro conjI)
qed

section \<open>Filling and aligned reads\<close>

lemma blend_whole_byte: "blend a (mask1 0 8) (align 8 b) = b"
  unfolding blend_def align_push mask1_def BITS_PER_BYTE_def ff_minus1
  by (rule bit_eqI) (auto simp: bit_simps dest: bit_imp_le_length)

lemma put_aligned_byte:
  assumes "array bs = Some xs" "t < length xs" "unat c = 8 * t"
  shows "BitStreamPutByte bs b c (of_nat BITS_PER_BYTE) = Inr (bs\<lparr>array := Some (xs[t := b])\<rparr>, 8)"
proof -
  have i: "BYTE_OFFSET c = t" and j: "BITS_OFFSET c = 0"
    using assms(3) by (simp_all add: BYTE_OFFSET_def BITS_OFFSET_def BITS_PER_BYTE_def)
  show ?thesis
    using put_single [of bs xs c 8 b] assms(1,2)
    by (simp add: i j blend_whole_byte BITS_PER_BYTE_def)
qed

lemma put_aligned_result:
  assumes "BITS_OFFSET c = 0" "BitStreamPutByte bs b c (of_nat BITS_PER_BYTE) = Inr (bs', r)"
  shows "nbits bs' = nbits bs \<and> r = 8"
  using assms
  by (auto simp: BitStreamPutByte_alt Let_def BITS_PER_BYTE_def split: sum.splits if_splits)

lemma ceil_div8_less: "t < (N + 7) div 8 \<longleftrightarrow> 8 * t < (N :: nat)"
proof
  assume "t < (N + 7) div 8"
  then have "Suc t \<le> (N + 7) div 8" by simp
  then have "Suc t * 8 \<le> N + 7" by (simp only: less_eq_div_iff_mult_less_eq [OF zero_less_numeral])
  then show "8 * t < N" by simp
next
  assume "8 * t < N"
  then have "Suc t * 8 \<le> N + 7" by simp
  then have "Suc t \<le> (N + 7) div 8" by (simp only: less_eq_div_iff_mult_less_eq [OF zero_less_numeral])
  then show "t < (N + 7) div 8" by simp
qed

lemma aligned_le:
  assumes "(x :: nat) < 65536" "x mod 8 = 0"
  shows "x \<le> 65528"
proof -
  from assms(2) obtain k where k: "x = 8 * k" by (auto simp: mod_eq_0_iff_dvd)
  with assms(1) have "k < 8192" by simp
  then show ?thesis using k by simp
qed

lemma unat_bit_count:
  assumes "t \<le> (N + 7) div 8" "N \<le> 65528"
  shows "unat (of_nat (8 * t) :: u16) = 8 * t"
proof -
  have "8 * t \<le> 8 * ((N + 7) div 8)" using assms(1) by simp
  also have "\<dots> \<le> N + 7" by simp
  finally have "8 * t < 65536" using assms(2) by simp
  then show ?thesis by (simp only: unat_of_nat) simp
qed

lemma fill_loop_ok:
  assumes "array bs = Some xs" "length xs = (unat (nbits bs) + 7) div 8"
    "unat (nbits bs) \<le> 65528" "t \<le> length xs" "length xs - t \<le> length inp"
  shows "fill_loop bs inp (of_nat (8 * t)) =
           Inr (bs\<lparr>array := Some (take t xs @ take (length xs - t) inp)\<rparr>,
                of_nat (8 * length xs))"
  using assms
proof (induction inp arbitrary: bs xs t)
  case Nil
  then have t: "t = length xs" by simp
  have c: "unat (of_nat (8 * t) :: u16) = 8 * t"
    using Nil.prems(2,3,4) by (intro unat_bit_count [of _ "unat (nbits bs)"]) simp_all
  have "\<not> 8 * t < unat (nbits bs)"
    using ceil_div8_less [of t "unat (nbits bs)"] Nil.prems(2) t by simp
  then have "\<not> (of_nat (8 * t) :: u16) < nbits bs"
    unfolding word_less_nat_alt c .
  then show ?case
    using Nil.prems(1) t by simp
next
  case (Cons b inp)
  have c: "unat (of_nat (8 * t) :: u16) = 8 * t"
    using Cons.prems(2,3,4) by (intro unat_bit_count [of _ "unat (nbits bs)"]) simp_all
  have lt: "(of_nat (8 * t) :: u16) < nbits bs \<longleftrightarrow> t < length xs"
    unfolding word_less_nat_alt c
    using ceil_div8_less [of t "unat (nbits bs)"] Cons.prems(2) by simp
  show ?case
  proof (cases "t < length xs")
    case False
    then have t: "t = length xs" using Cons.prems(4) by simp
    show ?thesis
      using lt Cons.prems(1) t by simp
  next
    case True
    let ?bs' = "bs\<lparr>array := Some (xs[t := b])\<rparr>"
    have put: "BitStreamPutByte bs b (of_nat (8 * t)) (of_nat BITS_PER_BYTE) = Inr (?bs', 8)"
      by (rule put_aligned_byte [OF Cons.prems(1) True c])
    have next_c: "(of_nat (8 * t) :: u16) + 8 = of_nat (8 * Suc t)"
      by simp
    have IH: "fill_loop ?bs' inp (of_nat (8 * Suc t)) =
           Inr (?bs'\<lparr>array := Some (take (Suc t) (xs[t := b]) @
                                       take (length (xs[t := b]) - Suc t) inp)\<rparr>,
                of_nat (8 * length (xs[t := b])))"
      by (rule Cons.IH) (use Cons.prems True in simp_all)
    have tk: "take (Suc t) (xs[t := b]) = take t xs @ [b]"
      using True by (simp add: take_Suc_conv_app_nth)
    have "length xs - t = Suc (length xs - Suc t)"
      using True by simp
    then have tk2: "take (length xs - t) (b # inp) = b # take (length xs - Suc t) inp"
      by (simp only: take_Suc_Cons)
    show ?thesis
      using lt True
      by (simp only: fill_loop.simps put if_True sum.case prod.case next_c IH tk tk2)
        simp
  qed
qed


lemma fill_ok:
  assumes inv: "bs_inv bs"
      and N: "unat (nbits bs) \<le> 65528"
      and src: "(unat (nbits bs) + 7) div 8 \<le> length inp"
  shows "BitStreamFill bs inp m =
           Inr (bs\<lparr>array := (case array bs of None \<Rightarrow> None
                                | Some xs \<Rightarrow> Some (take ((unat (nbits bs) + 7) div 8) inp))\<rparr>,
                of_nat (8 * ((unat (nbits bs) + 7) div 8)))"
proof (cases "array bs")
  case None
  then have "nbits bs = 0" using inv by (simp add: bs_inv_def)
  then show ?thesis
    using None by (cases inp) (simp_all add: BitStreamFill_def)
next
  case (Some xs)
  note len = inv_length [OF inv Some]
  have "fill_loop bs inp (of_nat (8 * 0)) =
          Inr (bs\<lparr>array := Some (take 0 xs @ take (length xs - 0) inp)\<rparr>, of_nat (8 * length xs))"
    by (rule fill_loop_ok [OF Some len N]) (use src len in simp_all)
  then show ?thesis
    using Some len by (simp add: BitStreamFill_def)
qed

lemma top_bits: "n \<le> 8 \<Longrightarrow> unalign n (push_bit 0 (a AND mask1 0 n)) = drop_bit (8 - n) a"
  unfolding unalign_drop mask1_def BITS_PER_BYTE_def ff_minus1
  by (rule bit_eqI) (auto simp: bit_simps dest: bit_imp_le_length)

lemma get_aligned:
  assumes "array bs = Some ys" "k < length ys" "unat n \<le> 8"
    "8 * k + unat n \<le> unat (nbits bs)"
  shows "BitStreamGetByte bs b (of_nat (8 * k)) n = Inr (drop_bit (8 - unat n) (ys ! k), n)"
proof -
  have c: "unat (of_nat (8 * k) :: u16) = 8 * k"
    using assms(4) by (intro le_unat_uoi [of _ "nbits bs"]) simp
  have i: "BYTE_OFFSET (of_nat (8 * k)) = k" and j: "BITS_OFFSET (of_nat (8 * k)) = 0"
    unfolding BYTE_OFFSET_def BITS_OFFSET_def c by (simp_all add: BITS_PER_BYTE_def)
  have i': "BYTE_OFFSET (of_nat (8 * k)) < length ys"
    unfolding i by (rule assms(2))
  have j': "BITS_OFFSET (of_nat (8 * k)) + unat n \<le> 8"
    unfolding j using assms(3) by simp
  have r': "unat (of_nat (8 * k) :: u16) + unat n \<le> unat (nbits bs)"
    unfolding c by (rule assms(4))
  have "BitStreamGetByte bs b (of_nat (8 * k)) n =
      Inr (unalign (unat n) (push_bit (BITS_OFFSET (of_nat (8 * k)))
        (ys ! BYTE_OFFSET (of_nat (8 * k)) AND mask1 (BITS_OFFSET (of_nat (8 * k))) (unat n))), n)"
    by (rule get_single [OF assms(1) i' j' r'])
  then show ?thesis
    unfolding i j by (simp only: top_bits [OF assms(3)])
qed

text \<open>
  Claim C6, as amended (the claim as stated fails: see the counterexample below). For a
  buffer that satisfies the invariant and has at most 65528 bits, filled from a source
  \<open>B\<close> of at least \<open>ceil (bit_length / 8)\<close> bytes, the fill returns, and for every width
  \<open>n\<close> from 0 to 8 and every byte index \<open>k\<close> of the storage with \<open>8 * k + n \<le> bit_length\<close>
  the read at offset \<open>8 * k\<close> reads \<open>n\<close> bits and returns the top \<open>n\<close> bits of \<open>B ! k\<close>,
  right-aligned.
\<close>

theorem get_after_fill:
  assumes inv: "bs_inv bs"
      and N: "unat (nbits bs) \<le> 65528"
      and src: "(unat (nbits bs) + 7) div 8 \<le> length B"
      and n: "unat n \<le> 8"
      and k: "k < (unat (nbits bs) + 7) div 8"
      and range: "8 * k + unat n \<le> unat (nbits bs)"
  shows "\<exists>bs' r. BitStreamFill bs B m = Inr (bs', r) \<and>
                 BitStreamGetByte bs' b (of_nat (8 * k)) n =
                   Inr (drop_bit (8 - unat n) (B ! k), n)"
proof -
  let ?K = "(unat (nbits bs) + 7) div 8"
  from k have "nbits bs \<noteq> 0" by (cases "nbits bs = 0") simp_all
  then obtain xs where xs: "array bs = Some xs"
    using inv by (cases "array bs") (simp_all add: bs_inv_def)
  let ?bs' = "bs\<lparr>array := Some (take ?K B)\<rparr>"
  have fill: "BitStreamFill bs B m = Inr (?bs', of_nat (8 * ?K))"
    using fill_ok [OF inv N src, of m] xs by simp
  have "BitStreamGetByte ?bs' b (of_nat (8 * k)) n =
          Inr (drop_bit (8 - unat n) (take ?K B ! k), n)"
    by (rule get_aligned) (use k src n range in simp_all)
  then have "BitStreamGetByte ?bs' b (of_nat (8 * k)) n = Inr (drop_bit (8 - unat n) (B ! k), n)"
    using k by simp
  with fill show ?thesis by blast
qed

theorem get_after_fill_witness:
  "bs_inv \<lparr>array = Some [0, 0], nbits = 12\<rparr> \<and>
   unat (nbits \<lparr>array = Some [0, 0], nbits = 12\<rparr>) \<le> 65528 \<and>
   (unat (nbits \<lparr>array = Some [0, 0], nbits = 12\<rparr>) + 7) div 8 \<le> length [0xAB, 0xCD :: u8] \<and>
   unat (3 :: u16) \<le> 8 \<and>
   1 < (unat (nbits \<lparr>array = Some [0, 0], nbits = 12\<rparr>) + 7) div 8 \<and>
   8 * 1 + unat (3 :: u16) \<le> unat (nbits \<lparr>array = Some [0, 0], nbits = 12\<rparr>) \<and>
   (\<exists>bs' r. BitStreamFill \<lparr>array = Some [0, 0], nbits = 12\<rparr> [0xAB, 0xCD] 12 = Inr (bs', r) \<and>
            BitStreamGetByte bs' 0 (of_nat (8 * 1)) 3 = Inr (6, 3))"
proof -
  let ?bs = "\<lparr>array = Some [0, 0 :: u8], nbits = 12\<rparr>"
  have inv: "bs_inv ?bs"
    by (simp add: bs_inv_def BITS_PER_BYTE_def)
  have N: "unat (nbits ?bs) \<le> 65528"
    by simp
  have src: "(unat (nbits ?bs) + 7) div 8 \<le> length [0xAB, 0xCD :: u8]"
    by simp
  have n: "unat (3 :: u16) \<le> 8"
    by simp
  have k: "1 < (unat (nbits ?bs) + 7) div 8"
    by simp
  have range: "8 * 1 + unat (3 :: u16) \<le> unat (nbits ?bs)"
    by simp
  have v: "drop_bit (8 - unat (3 :: u16)) ([0xAB, 0xCD :: u8] ! 1) = 6"
    by simp
  from get_after_fill [OF inv N src n k range, of 12 0]
  have "\<exists>bs' r. BitStreamFill ?bs [0xAB, 0xCD] 12 = Inr (bs', r) \<and>
            BitStreamGetByte bs' 0 (of_nat (8 * 1)) 3 = Inr (6, 3)"
    unfolding v .
  with inv N src n k range show ?thesis
    by (intro conjI)
qed

text \<open>
  The claim as stated does not ask for \<open>8 * k + n \<le> bit_length\<close>. On a buffer of 12 bits
  (two bytes of storage) filled from \<open>[0xAB, 0xCD]\<close>, byte index 1 is valid, but the read
  of 8 bits at offset 8 is rejected by the range test of \<^verbatim>\<open>BitStreamGetByte\<close>: no bit
  is read and the output byte is left as it was.
\<close>

theorem get_after_fill_counterexample:
  "bs_inv \<lparr>array = Some [0, 0], nbits = 12\<rparr> \<and>
   BitStreamFill \<lparr>array = Some [0, 0], nbits = 12\<rparr> [0xAB, 0xCD] 12 =
     Inr (\<lparr>array = Some [0xAB, 0xCD], nbits = 12\<rparr>, 16) \<and>
   BitStreamGetByte \<lparr>array = Some [0xAB, 0xCD], nbits = 12\<rparr> 0 (of_nat (8 * 1)) 8 = Inr (0, 0) \<and>
   BitStreamGetByte \<lparr>array = Some [0xAB, 0xCD], nbits = 12\<rparr> 0 (of_nat (8 * 1)) 8 \<noteq>
     Inr (drop_bit (8 - 8) ([0xAB, 0xCD] ! 1), 8)"
  by (simp add: bs_inv_def BITS_PER_BYTE_def BitStreamFill_def BitStreamPutByte_def
      BitStreamGetByte_def BYTE_OFFSET_def BITS_OFFSET_def load_def store_def Let_def)

section \<open>Filling a buffer of more than 65528 bits\<close>

lemma aligned_add8:
  assumes "unat (c :: u16) mod 8 = 0"
  shows "unat (c + 8) mod 8 = 0"
proof -
  have "unat (c + 8) = (unat c + 8) mod 65536"
    by (simp add: unat_word_ariths)
  also have "\<dots> mod 8 = (unat c + 8) mod 8"
    by (rule mod_mod_cancel) simp
  finally show ?thesis using assms by simp
qed

lemma fill_loop_overflow:
  assumes "65528 < unat (nbits bs)" "unat c mod 8 = 0"
  shows "\<exists>f. fill_loop bs inp c = Inl f"
  using assms
proof (induction inp arbitrary: bs c)
  case Nil
  have "unat c < 65536" using unsigned_less [of c, where ?'a = nat] by simp
  then have "unat c \<le> 65528" using Nil.prems(2) by (rule aligned_le)
  then have "c < nbits bs" using Nil.prems(1) by (simp add: word_less_nat_alt)
  then show ?case by simp
next
  case (Cons b inp)
  have "unat c < 65536" using unsigned_less [of c, where ?'a = nat] by simp
  then have "unat c \<le> 65528" using Cons.prems(2) by (rule aligned_le)
  then have lt: "c < nbits bs" using Cons.prems(1) by (simp add: word_less_nat_alt)
  have j: "BITS_OFFSET c = 0"
    using Cons.prems(2) by (simp add: BITS_OFFSET_def BITS_PER_BYTE_def)
  show ?case
  proof (cases "BitStreamPutByte bs b c (of_nat BITS_PER_BYTE)")
    case (Inl e)
    then show ?thesis using lt by simp
  next
    case (Inr p)
    obtain bs' r where p: "p = (bs', r)" by (cases p)
    from put_aligned_result [OF j Inr [unfolded p]]
    have nb: "nbits bs' = nbits bs" and r: "r = 8" by simp_all
    have "\<exists>f. fill_loop bs' inp (c + 8) = Inl f"
      by (rule Cons.IH) (use Cons.prems nb in \<open>simp_all add: aligned_add8\<close>)
    then show ?thesis
      using lt Inr p r by simp
  qed
qed

lemma fill_ignores_count: "BitStreamFill bs inp m = BitStreamFill bs inp m'"
  by (simp add: BitStreamFill_def)

text \<open>
  Claim C10 at the failing inputs. With a bit length above 65528 the 16-bit counter
  wraps to 0 before it can reach the bit length, so the loop of \<^verbatim>\<open>BitStreamFill\<close> never
  leaves through its test: whatever the source, the function does not return; it runs
  until it leaves the source block or the storage.
\<close>

theorem fill_never_returns_above_65528:
  assumes "65528 < unat (nbits bs)"
  shows "\<exists>f. BitStreamFill bs inp m = Inl f"
  unfolding BitStreamFill_def
  using assms by (rule fill_loop_overflow) simp

theorem fill_never_returns_above_65528_witness:
  "65528 < unat (nbits \<lparr>array = Some (replicate 8192 0), nbits = 65535\<rparr>) \<and>
   bs_inv \<lparr>array = Some (replicate 8192 0), nbits = 65535\<rparr> \<and>
   (\<exists>f. BitStreamFill \<lparr>array = Some (replicate 8192 0), nbits = 65535\<rparr>
          (replicate 8192 0xFF) 65535 = Inl f)"
proof -
  have big: "65528 < unat (nbits \<lparr>array = Some (replicate 8192 0), nbits = 65535\<rparr>)"
    by simp
  have inv: "bs_inv \<lparr>array = Some (replicate 8192 0), nbits = 65535\<rparr>"
    by (simp add: bs_inv_def BITS_PER_BYTE_def)
  from big inv fill_never_returns_above_65528 [OF big, of "replicate 8192 0xFF" 65535]
  show ?thesis by (intro conjI)
qed

section \<open>Hexadecimal digits\<close>

lemmas hex_eval = strtox_def strtox_loop.simps xtoi_def char_code_def char_at_def store_def Let_def

lemma char_code_of_nat:
  "char_code c = (if (of_char c :: nat) < 128 then int (of_char c) else int (of_char c) - 256)"
proof -
  have "(of_char c :: int) = int (of_char c)"
    by (simp add: of_nat_of_char)
  then show ?thesis
    by (simp add: char_code_def Let_def)
qed

lemma accepted_code:
  "accepted c \<longleftrightarrow> (48 \<le> (of_char c :: nat) \<and> (of_char c :: nat) \<le> 57) \<or>
                  (97 \<le> (of_char c :: nat) \<and> (of_char c :: nat) \<le> 102)"
  unfolding accepted_def xtoi_def Let_def char_code_of_nat
  apply (simp split: if_splits)
  apply (insert nat_of_char_less_256 [of c])
  apply arith
  done

lemma accepted_iff: "accepted c \<longleftrightarrow> c \<in> set ''0123456789abcdef''"
proof
  assume "accepted c"
  then have "(of_char c :: nat) \<in> {48, 49, 50, 51, 52, 53, 54, 55, 56, 57, 97, 98, 99, 100, 101, 102}"
    unfolding accepted_code by simp arith
  also have "{48, 49, 50, 51, 52, 53, 54, 55, 56, 57, 97, 98, 99, 100, 101, 102} =
      (of_char ` set ''0123456789abcdef'' :: nat set)"
    by simp
  finally show "c \<in> set ''0123456789abcdef''"
    by (simp only: inj_image_mem_iff [OF inj_of_char])
next
  assume "c \<in> set ''0123456789abcdef''"
  then show "accepted c"
    unfolding accepted_code by auto
qed

lemma xtoi_accepted: "accepted c \<Longrightarrow> xtoi c = Inr (digit c)"
  by (simp add: accepted_def digit_def split: sum.splits)

lemma digit_values:
  "map digit ''0123456789abcdef'' = [0, 1, 2, 3, 4, 5, 6, 7, 8, 9, 10, 11, 12, 13, 14, 15]"
  by (simp add: digit_def xtoi_def char_code_def Let_def)

lemma digit_high_nibble:
  assumes "accepted c"
  shows "drop_bit 4 (digit c) = 0"
  using assms unfolding accepted_iff
  by (auto simp: digit_def xtoi_def char_code_def Let_def)

lemma digit_low_nibble:
  assumes "accepted c"
  shows "digit c AND 0x0F = digit c"
  using assms unfolding accepted_iff
  by (auto simp: digit_def xtoi_def char_code_def Let_def)

text \<open>
  Claim C2 at the failing inputs. The lower-case letters and the decimal digits are
  converted, but each of the upper-case letters \<open>A\<close> to \<open>F\<close> falls through the third test
  of \<^verbatim>\<open>xtoi\<close> (\<^verbatim>\<open>c <- 'F'\<close>, that is \<^verbatim>\<open>c < -70\<close>) into \<^verbatim>\<open>assert(0)\<close>, and so does the
  decoding of a string that contains one.
\<close>

theorem xtoi_rejects_upper_case:
  "xtoi CHR ''A'' = Inl AssertFailed \<and> xtoi CHR ''B'' = Inl AssertFailed \<and>
   xtoi CHR ''C'' = Inl AssertFailed \<and> xtoi CHR ''D'' = Inl AssertFailed \<and>
   xtoi CHR ''E'' = Inl AssertFailed \<and> xtoi CHR ''F'' = Inl AssertFailed \<and>
   xtoi CHR ''c'' = Inr 12 \<and> xtoi CHR ''9'' = Inr 9 \<and>
   strtox ''1C'' (Some [0]) 1 = Inl AssertFailed \<and>
   strtox ''1c'' (Some [0, 0]) 2 = Inr (Some [0x1c, 0], 1)"
  by (simp add: hex_eval)

section \<open>The invariant under creation and rebinding\<close>

lemma create_inv:
  assumes "BitStreamCreate ok_bs ok_array n = Inr bs"
  shows "bs_inv bs"
  using assms
  by (auto simp: BitStreamCreate_def calloc_def bs_inv_def split: if_splits)

lemma realloc_resize_inv:
  assumes "array bs = Some xs" "n \<noteq> 0"
  shows "bs_inv (BitStreamRealloc True fresh bs None n)"
  using assms by (simp add: BitStreamRealloc_def realloc_def bs_inv_def)

lemma realloc_release_inv: "bs_inv (BitStreamRealloc ok fresh bs None 0)"
  by (simp add: BitStreamRealloc_def bs_inv_def split: option.splits)

text \<open>
  Claim C3 at the failing input. An empty stream (no storage, 0 bits) satisfies the
  invariant. \<^verbatim>\<open>BitStreamRealloc\<close> on it with no caller's block and 8 bits takes the branch
  \<^verbatim>\<open>bs->array = buffer\<close>: the storage stays \<^verbatim>\<open>NULL\<close> while the bit length becomes 8, so
  the invariant is lost; \<^verbatim>\<open>BitStreamFillAscii\<close>, which rebinds in exactly this way, then
  writes through the \<^verbatim>\<open>NULL\<close> pointer.
\<close>

theorem realloc_empty_breaks_inv:
  "bs_inv \<lparr>array = None, nbits = 0\<rparr> \<and>
   BitStreamRealloc True (\<lambda>k. 0) \<lparr>array = None, nbits = 0\<rparr> None 8 = \<lparr>array = None, nbits = 8\<rparr> \<and>
   \<not> bs_inv (BitStreamRealloc True (\<lambda>k. 0) \<lparr>array = None, nbits = 0\<rparr> None 8) \<and>
   BitStreamFillAscii True (\<lambda>k. 0) \<lparr>array = None, nbits = 0\<rparr> ''1c'' = Inl NullPointer"
  by (simp add: bs_inv_def BitStreamRealloc_def BitStreamFillAscii_def BITS_PER_BYTE_def
      hex_eval)

section \<open>Decoding\<close>

lemma strtox_loop_exact:
  assumes "list_all accepted s" "length s = i + 2 * Suc p"
    "j + Suc p = length out" "unat sz = length out"
  shows "strtox_loop s (int (length s)) sz (Some out) i j =
           Inr (Some (take j out @ pair_bytes (drop i s)), - 1)"
  using assms
proof (induction p arbitrary: i j out)
  case (0 i j out)
  have ai: "accepted (s ! i)" and ai1: "accepted (s ! (i + 1))"
    using "0.prems"(1,2) by (simp_all add: list_all_length)
  let ?b = "push_bit 4 (digit (s ! i)) OR digit (s ! (i + 1))"
  have dr: "drop i s = [s ! i, s ! (i + 1)]"
    using "0.prems"(2) by (simp add: Cons_nth_drop_Suc [symmetric])
  have c0: "char_at s i = s ! i" and c1: "char_at s (i + 1) = s ! (i + 1)"
    using "0.prems"(2) by (simp_all add: char_at_def)
  have st: "store (Some out) j b = Inr (Some (out[j := b]))" for b
    using "0.prems"(3) by (simp add: store_def)
  have lt: "int i < int (length s)"
    using "0.prems"(2) by simp
  have full: "uint sz \<le> int (j + 1)"
    unfolding uint_nat "0.prems"(4) using "0.prems"(3) by simp
  have "strtox_loop s (int (length s)) sz (Some out) i j = Inr (Some (out[j := ?b]), - 1)"
    by (subst strtox_loop.simps)
       (simp only: lt if_True c0 c1 xtoi_accepted [OF ai] xtoi_accepted [OF ai1] st sum.case full)
  moreover have "out[j := ?b] = take j out @ pair_bytes (drop i s)"
    using "0.prems"(3) by (simp add: dr upd_conv_take_nth_drop)
  ultimately show ?case by simp
next
  case (Suc p i j out)
  have ai: "accepted (s ! i)" and ai1: "accepted (s ! (i + 1))"
    using Suc.prems(1,2) by (simp_all add: list_all_length)
  let ?b = "push_bit 4 (digit (s ! i)) OR digit (s ! (i + 1))"
  have dr: "drop i s = s ! i # s ! (i + 1) # drop (i + 2) s"
    using Suc.prems(2) by (simp add: Cons_nth_drop_Suc)
  have c0: "char_at s i = s ! i" and c1: "char_at s (i + 1) = s ! (i + 1)"
    using Suc.prems(2) by (simp_all add: char_at_def)
  have st: "store (Some out) j b = Inr (Some (out[j := b]))" for b
    using Suc.prems(3) by (simp add: store_def)
  have lt: "int i < int (length s)"
    using Suc.prems(2) by simp
  have room: "\<not> uint sz \<le> int (j + 1)"
    unfolding uint_nat Suc.prems(4) using Suc.prems(3) by simp
  have "strtox_loop s (int (length s)) sz (Some out) i j =
          strtox_loop s (int (length s)) sz (Some (out[j := ?b])) (i + 2) (j + 1)"
    by (subst strtox_loop.simps)
       (simp only: lt if_True if_False c0 c1 xtoi_accepted [OF ai] xtoi_accepted [OF ai1] st
          sum.case room)
  also have "\<dots> = Inr (Some (take (j + 1) (out[j := ?b]) @ pair_bytes (drop (i + 2) s)), - 1)"
    by (rule Suc.IH) (use Suc.prems in simp_all)
  also have "take (j + 1) (out[j := ?b]) @ pair_bytes (drop (i + 2) s) =
               take j out @ pair_bytes (drop i s)"
    using Suc.prems(3) by (simp add: dr take_Suc_conv_app_nth)
  finally show ?case .
qed

lemma short_len:
  assumes "n < 32768"
  shows "sint (word_of_nat n :: 16 word) = int n"
proof -
  have "sint (word_of_nat n :: 16 word) = signed_take_bit 15 (int n)"
    by (simp add: signed_of_nat)
  also have "\<dots> = int n"
    by (rule signed_take_bit_int_eq_self) (use assms in simp_all)
  finally show ?thesis .
qed

lemma strtox_even_exact:
  assumes acc: "list_all accepted s"
      and len: "length s = 2 * Suc p" "length s < 32768"
      and out: "length out = Suc p" "unat sz = Suc p"
  shows "strtox s (Some out) sz = Inr (Some (decoded s), - 1)"
proof -
  have "strtox_loop s (int (length s)) sz (Some out) 0 0 =
          Inr (Some (take 0 out @ pair_bytes (drop 0 s)), - 1)"
    by (rule strtox_loop_exact [OF acc]) (use len out in simp_all)
  moreover have "int (length s) mod 2 = 0" "even (length s)"
    using len(1) by simp_all
  ultimately show ?thesis
    by (simp add: strtox_def short_len [OF len(2)] decoded_def)
qed

lemma strtox_odd_exact:
  assumes acc: "list_all accepted s"
      and len: "length s = 2 * p + 1" "length s < 32768"
      and out: "length out = Suc p" "unat sz = Suc p"
  shows "strtox s (Some out) sz = Inr (Some (decoded s), if p = 0 then 1 else - 1)"
proof -
  obtain c cs where s: "s = c # cs" using len(1) by (cases s) simp_all
  have c: "xtoi (char_at s 0) = Inr (digit c)"
    using acc s by (simp add: char_at_def xtoi_accepted)
  have st: "store (Some out) 0 (digit c) = Inr (Some (out[0 := digit c]))"
    using out(1) by (simp add: store_def)
  have odd: "int (length s) mod 2 \<noteq> 0"
    using len(1) by presburger
  have start: "strtox s (Some out) sz =
      strtox_loop s (int (length s)) sz (Some (out[0 := digit c])) 1 1"
    using odd by (simp add: strtox_def short_len [OF len(2)] c st)
  have dec: "decoded s = digit c # pair_bytes cs"
    using len(1) by (simp add: decoded_def s)
  show ?thesis
  proof (cases p)
    case 0
    then have "cs = []" using len(1) s by simp
    moreover have "out[0 := digit c] = [digit c]"
      using out(1) 0 by (cases out) simp_all
    ultimately show ?thesis
      unfolding start using 0 len(1) by (subst strtox_loop.simps) (simp add: dec)
  next
    case (Suc q)
    have "strtox_loop s (int (length s)) sz (Some (out[0 := digit c])) 1 1 =
        Inr (Some (take 1 (out[0 := digit c]) @ pair_bytes (drop 1 s)), - 1)"
      by (rule strtox_loop_exact [OF acc, where p = q]) (use len out Suc in simp_all)
    moreover have "take 1 (out[0 := digit c]) = [digit c]"
      using out(1) by (cases out) simp_all
    ultimately show ?thesis
      unfolding start dec using Suc by (simp add: s)
  qed
qed

lemma length_pair_bytes: "length (pair_bytes s) = length s div 2"
  by (induction s rule: pair_bytes.induct) simp_all

lemma length_decoded: "length (decoded s) = (length s + 1) div 2"
  by (cases s) (auto simp: decoded_def length_pair_bytes elim!: oddE)

lemma fill_ascii_decodes:
  assumes acc: "list_all accepted s"
      and len: "0 < length s" "length s \<le> 16382"
      and xs: "array bs = Some xs"
  shows "BitStreamFillAscii True fresh bs s =
           Inr (\<lparr>array = Some (decoded s), nbits = of_nat (8 * ((length s + 1) div 2))\<rparr>,
                of_nat (8 * ((length s + 1) div 2)))"
proof -
  define K where "K = (length s + 1) div 2"
  have K: "0 < K" "K \<le> 8191"
    using len unfolding K_def by simp_all
  define sz :: u16 where "sz = of_nat K"
  have usz: "unat sz = K"
    unfolding sz_def using K by (simp only: unat_of_nat) simp
  define nb :: u16 where "nb = of_nat (8 * K)"
  have bits: "sz * of_nat BITS_PER_BYTE = nb"
    by (simp add: sz_def nb_def BITS_PER_BYTE_def)
  have ubits: "unat nb = 8 * K"
    unfolding nb_def using K by (simp only: unat_of_nat) simp
  have nz: "nb \<noteq> 0"
  proof
    assume "nb = 0"
    then have "unat nb = 0" by simp
    then show False using ubits K by simp
  qed
  define out where "out = map (\<lambda>k. if k < length xs then xs ! k else fresh k) [0..<K]"
  have lout: "length out = K"
    by (simp add: out_def)
  have re: "BitStreamRealloc True fresh bs None nb = bs\<lparr>array := Some out, nbits := nb\<rparr>"
    using xs nz by (simp add: BitStreamRealloc_def realloc_def ubits BITS_PER_BYTE_def out_def)
  have "\<exists>r. strtox s (Some out) sz = Inr (Some (decoded s), r)"
  proof (cases "even (length s)")
    case True
    then obtain p where p: "length s = 2 * Suc p"
      using len(1) by (cases "length s div 2") (auto elim!: evenE)
    have "strtox s (Some out) sz = Inr (Some (decoded s), - 1)"
      by (rule strtox_even_exact [OF acc p]) (use len p lout usz K_def in simp_all)
    then show ?thesis by blast
  next
    case False
    then obtain p where p: "length s = 2 * p + 1"
      by (auto elim!: oddE)
    have "strtox s (Some out) sz = Inr (Some (decoded s), if p = 0 then 1 else - 1)"
      by (rule strtox_odd_exact [OF acc p]) (use len p lout usz K_def in simp_all)
    then show ?thesis by blast
  qed
  then obtain r where "strtox s (Some out) sz = Inr (Some (decoded s), r)" ..
  then have "BitStreamFillAscii True fresh bs s = Inr (\<lparr>array = Some (decoded s), nbits = nb\<rparr>, nb)"
    unfolding BitStreamFillAscii_def Let_def K_def [symmetric] sz_def [symmetric] bits re
    by simp
  then show ?thesis
    unfolding nb_def K_def .
qed

text \<open>
  The test vector of the specification, through the decoding entry point.
\<close>

lemma decode_test_vector:
  "BitStreamFillAscii True (\<lambda>k. 0) \<lparr>array = Some [0], nbits = 8\<rparr>
      ''1c0111001f010100061a024b53535009181c'' =
   Inr (\<lparr>array = Some [0x1c, 0x01, 0x11, 0x00, 0x1f, 0x01, 0x01, 0x00, 0x06, 0x1a, 0x02, 0x4b,
                        0x53, 0x53, 0x50, 0x09, 0x18, 0x1c],
         nbits = 144\<rparr>, 144)"
proof -
  have acc: "list_all accepted ''1c0111001f010100061a024b53535009181c''"
    by (simp add: accepted_iff)
  have dec: "decoded ''1c0111001f010100061a024b53535009181c'' =
      [0x1c, 0x01, 0x11, 0x00, 0x1f, 0x01, 0x01, 0x00, 0x06, 0x1a, 0x02, 0x4b,
       0x53, 0x53, 0x50, 0x09, 0x18, 0x1c]"
    by (simp add: decoded_def digit_def xtoi_def char_code_def Let_def)
  show ?thesis
    using fill_ascii_decodes [OF acc, of "\<lparr>array = Some [0], nbits = 8\<rparr>" "[0]" "\<lambda>k. 0"]
    unfolding dec by simp
qed

text \<open>
  On accepted digits, and below the 32768 characters that a \<^verbatim>\<open>short\<close> can count, the
  convention for odd lengths holds: \<open>m + 1\<close> bytes, the first digit alone in the low
  nibble of the first byte, the rest in pairs.
\<close>

lemma odd_decode_accepted_digits:
  assumes acc: "list_all accepted s"
      and len: "length s = 2 * m + 1" "length s < 32768"
      and out: "length out = m + 1" "unat sz = m + 1"
  shows "\<exists>out' r. strtox s (Some out) sz = Inr (Some out', r) \<and>
                  length out' = m + 1 \<and>
                  out' ! 0 AND 0x0F = digit (hd s) \<and>
                  drop_bit 4 (out' ! 0) = 0 \<and>
                  tl out' = pair_bytes (tl s)"
proof -
  have "strtox s (Some out) sz = Inr (Some (decoded s), if m = 0 then 1 else - 1)"
    by (rule strtox_odd_exact [OF acc len]) (use out in simp_all)
  moreover have "length (decoded s) = m + 1"
    using len(1) by (simp add: length_decoded)
  moreover have d: "decoded s = digit (hd s) # pair_bytes (tl s)"
    using len(1) by (simp add: decoded_def)
  moreover have "accepted (hd s)"
    using acc len(1) by (cases s) simp_all
  ultimately show ?thesis
    by (simp add: digit_low_nibble digit_high_nibble)
qed

text \<open>
  Claim C7 at the failing input. The odd-length string \<open>A\<close> (one hexadecimal digit,
  \<open>m = 0\<close>) is not decoded to the byte \<open>0x0A\<close>: \<^verbatim>\<open>strtox\<close> stops in the \<^verbatim>\<open>assert\<close> of
  \<^verbatim>\<open>xtoi\<close>, and so does \<^verbatim>\<open>BitStreamFillAscii\<close>. The same string in lower case is decoded
  as the claim says, and so is \<open>abc\<close>.
\<close>

theorem odd_decode_upper_case_fails:
  "strtox ''A'' (Some [0]) 1 = Inl AssertFailed \<and>
   BitStreamFillAscii True (\<lambda>k. 0) \<lparr>array = Some [0], nbits = 8\<rparr> ''A'' = Inl AssertFailed \<and>
   BitStreamFillAscii True (\<lambda>k. 0) \<lparr>array = Some [0], nbits = 8\<rparr> ''a'' =
     Inr (\<lparr>array = Some [0x0a], nbits = 8\<rparr>, 8) \<and>
   BitStreamFillAscii True (\<lambda>k. 0) \<lparr>array = Some [0], nbits = 8\<rparr> ''abc'' =
     Inr (\<lparr>array = Some [0x0a, 0xbc], nbits = 16\<rparr>, 16)"
  by (simp add: BitStreamFillAscii_def BitStreamRealloc_def realloc_def BITS_PER_BYTE_def
      hex_eval upt_rec)

text \<open>
  Claim C8 at the failing input. Decoding the two digits \<open>1c\<close> into a destination of
  exactly one byte stores the byte \<open>0x1c\<close> and then returns \<open>-1\<close>, the error value, not
  the count 1: the test \<^verbatim>\<open>j >= size\<close> is made after the store and the increment, so it
  holds as soon as the destination is full. A destination that is too small gives the
  same \<open>-1\<close>; only a destination with a byte to spare gives the count.
\<close>

theorem strtox_exact_fit_reports_error:
  "strtox ''1c'' (Some [0]) 1 = Inr (Some [0x1c], - 1) \<and>
   strtox ''1c2d'' (Some [0, 0]) 2 = Inr (Some [0x1c, 0x2d], - 1) \<and>
   strtox ''1c2d'' (Some [0]) 1 = Inr (Some [0x1c], - 1) \<and>
   strtox ''1c2d'' (Some [0, 0, 0]) 3 = Inr (Some [0x1c, 0x2d, 0], 2)"
  by (simp add: hex_eval)

section \<open>Exclusive or\<close>

text \<open>
  Claim C9. For two buffers that satisfy the invariant: if their bit lengths are equal,
  the exclusive or returns a buffer of that bit length that satisfies the invariant and
  whose bytes are the byte-wise XOR of the operands' bytes; if the bit lengths differ it
  fails with \<open>LengthMismatch\<close> and returns no buffer.
\<close>

theorem xor_contract:
  assumes "bs_inv a" "bs_inv b"
  shows "(nbits a = nbits b \<longrightarrow>
            (\<exists>c. BitStreamExclusiveOr a b = Inr c \<and> nbits c = nbits a \<and> bs_inv c \<and>
                 (\<forall>xs ys. array a = Some xs \<and> array b = Some ys \<longrightarrow>
                    (\<exists>zs. array c = Some zs \<and> length zs = length xs \<and>
                          (\<forall>i < length xs. zs ! i = xs ! i XOR ys ! i))))) \<and>
         (nbits a \<noteq> nbits b \<longrightarrow> BitStreamExclusiveOr a b = Inl LengthMismatch)"
  using assms
  by (cases "array a"; cases "array b")
     (auto simp: BitStreamExclusiveOr_def bs_inv_def)

theorem xor_contract_witness:
  "bs_inv \<lparr>array = Some [0x1c, 0x01], nbits = 16\<rparr> \<and>
   bs_inv \<lparr>array = Some [0x68, 0x69], nbits = 16\<rparr> \<and>
   bs_inv \<lparr>array = Some [0x68], nbits = 8\<rparr> \<and>
   nbits \<lparr>array = Some [0x1c, 0x01], nbits = 16\<rparr> = nbits \<lparr>array = Some [0x68, 0x69], nbits = 16\<rparr> \<and>
   nbits \<lparr>array = Some [0x1c, 0x01], nbits = 16\<rparr> \<noteq> nbits \<lparr>array = Some [0x68], nbits = 8\<rparr> \<and>
   BitStreamExclusiveOr \<lparr>array = Some [0x1c, 0x01], nbits = 16\<rparr>
       \<lparr>array = Some [0x68, 0x69], nbits = 16\<rparr> =
     Inr \<lparr>array = Some [0x74, 0x68], nbits = 16\<rparr> \<and>
   BitStreamExclusiveOr \<lparr>array = Some [0x1c, 0x01], nbits = 16\<rparr>
       \<lparr>array = Some [0x68], nbits = 8\<rparr> = Inl LengthMismatch"
proof -
  have a: "bs_inv \<lparr>array = Some [0x1c, 0x01], nbits = 16\<rparr>"
   and b: "bs_inv \<lparr>array = Some [0x68, 0x69], nbits = 16\<rparr>"
   and b': "bs_inv \<lparr>array = Some [0x68], nbits = 8\<rparr>"
    by (simp_all add: bs_inv_def BITS_PER_BYTE_def)
  show ?thesis
    using a b b' xor_contract [OF a b] xor_contract [OF a b']
    by (simp add: BitStreamExclusiveOr_def)
qed

end
